theory Spec2Isabelle
  imports Complex_Main "HOL-Library.Word"
begin

section \<open>Data model\<close>

text \<open>
  The upload tool of the repository (\<^verbatim>\<open>main.go\<close>) consists of the function \<^verbatim>\<open>main\<close>,
  the helper \<^verbatim>\<open>formatBytes\<close> and the type \<^verbatim>\<open>ProgressReader\<close> with its method
  \<^verbatim>\<open>Read\<close>.

  Go's \<^verbatim>\<open>int64\<close> is a 64-bit word read as two's complement (\<open>sint\<close>); addition wraps.
  Go's \<^verbatim>\<open>int\<close> (the byte count \<^verbatim>\<open>n\<close> of a read) is an \<open>int\<close>; every value of Go's
  \<^verbatim>\<open>int\<close> fits \<^verbatim>\<open>int64\<close>, so the conversion \<^verbatim>\<open>int64(n)\<close> is \<open>word_of_int n\<close>.
  A Go \<^verbatim>\<open>error\<close> is \<open>error option\<close>, \<open>None\<close> for \<^verbatim>\<open>nil\<close>.
\<close>

type_synonym byte = "8 word"
type_synonym int64 = "64 word"

datatype error = EOF | Err string

text \<open>
  One call \<^verbatim>\<open>Read(p)\<close> of an \<^verbatim>\<open>io.Reader\<close> is given the buffer \<^verbatim>\<open>p\<close> and returns the
  pair \<^verbatim>\<open>(n, err)\<close>; it may overwrite \<^verbatim>\<open>p\<close> and change the state of the source. A source is
  therefore a function from its state and the buffer to the buffer afterwards, \<^verbatim>\<open>n\<close>,
  \<^verbatim>\<open>err\<close> and the next state.
\<close>

type_synonym read_result = "byte list \<times> int \<times> error option"
type_synonym 's io_Reader = "'s \<Rightarrow> byte list \<Rightarrow> read_result \<times> 's"

definition res_n :: "read_result \<Rightarrow> int" where
  "res_n r = fst (snd r)"

definition res_err :: "read_result \<Rightarrow> error option" where
  "res_err r = snd (snd r)"

section \<open>ProgressReader\<close>

text \<open>
  \<^verbatim>\<open>
  type ProgressReader struct {
      io.Reader
      Size       int64
      read       int64
      OnProgress func(progress float64)
  }
  \<close>
  The embedded \<^verbatim>\<open>io.Reader\<close> is the state of the wrapped source; its \<^verbatim>\<open>Read\<close> method is
  passed to the model of \<^verbatim>\<open>ProgressReader.Read\<close> as a parameter. The callback acts on
  the rest of the program's state, of type \<open>'w\<close>; \<open>None\<close> is a \<^verbatim>\<open>nil\<close> callback.
\<close>

record ('s, 'w) ProgressReader =
  Reader :: 's
  Size :: int64
  read :: int64
  OnProgress :: "(real \<Rightarrow> 'w \<Rightarrow> 'w) option"

subsection \<open>\<^verbatim>\<open>float64\<close>\<close>

text \<open>
  A finite \<^verbatim>\<open>float64\<close> is a real number of the form \<open>m * 2 ^ e\<close> with \<open>\<bar>m\<bar> < 2 ^ 53\<close>, and
  each operation of Go on \<^verbatim>\<open>float64\<close> (the conversion of an integer, \<^verbatim>\<open>/\<close>, \<^verbatim>\<open>*\<close>) is the exact
  operation followed by rounding to the nearest such number, a tie going to the even
  significand (IEEE 754, round to nearest even).

  \<open>expo x\<close> is the exponent of a positive \<open>x\<close>: \<open>2 ^ expo x \<le> x < 2 ^ (expo x + 1)\<close>. It is
  found by halving a number from 2 on, and doubling a number below 1.
\<close>

function expo_ge1 :: "real \<Rightarrow> int" where
  "expo_ge1 x = (if x < 2 then 0 else 1 + expo_ge1 (x / 2))"
  by pat_completeness auto
termination
proof (relation "measure (\<lambda>x. nat \<lfloor>x\<rfloor>)")
  show "wf (measure (\<lambda>x::real. nat \<lfloor>x\<rfloor>))" by simp
next
  fix x :: real
  assume "\<not> x < 2"
  then have "x / 2 \<le> x - 1" by simp
  then have "\<lfloor>x / 2\<rfloor> \<le> \<lfloor>x - 1\<rfloor>" by (rule floor_mono)
  moreover have "0 < \<lfloor>x\<rfloor>" using \<open>\<not> x < 2\<close> by simp
  ultimately show "(x / 2, x) \<in> measure (\<lambda>x. nat \<lfloor>x\<rfloor>)" by simp
qed

function expo_lt1 :: "real \<Rightarrow> int" where
  "expo_lt1 x = (if x \<le> 0 \<or> 1 \<le> x then 0 else expo_lt1 (2 * x) - 1)"
  by pat_completeness auto
termination
proof (relation "measure (\<lambda>x. nat \<lceil>1 / x\<rceil>)")
  show "wf (measure (\<lambda>x::real. nat \<lceil>1 / x\<rceil>))" by simp
next
  fix x :: real
  assume "\<not> (x \<le> 0 \<or> 1 \<le> x)"
  then have x: "0 < x" "x < 1" by simp_all
  then have t: "1 < 1 / x" by simp
  then have c: "2 \<le> \<lceil>1 / x\<rceil>" by linarith
  have "1 / x \<le> of_int \<lceil>1 / x\<rceil>" by (rule le_of_int_ceiling)
  then have "1 / (2 * x) \<le> of_int \<lceil>1 / x\<rceil> / 2" by simp
  also have "\<dots> \<le> of_int (\<lceil>1 / x\<rceil> - 1)" using c by simp
  finally have "\<lceil>1 / (2 * x)\<rceil> \<le> \<lceil>1 / x\<rceil> - 1" by (rule ceiling_le)
  with c x show "(2 * x, x) \<in> measure (\<lambda>x. nat \<lceil>1 / x\<rceil>)" by simp
qed

definition expo :: "real \<Rightarrow> int" where
  "expo x = (if 1 \<le> x then expo_ge1 x else expo_lt1 x)"

text \<open>
  Rounding to the nearest integer, a tie going to the even one, and rounding to a significand
  of 53 bits. The exponent is not bounded here: \<^verbatim>\<open>ProgressReader.Read\<close> converts two
  \<^verbatim>\<open>int64\<close>, divides by a converted \<^verbatim>\<open>Size \<ge> 1\<close> and multiplies by 100, so that every value
  it rounds is 0 or has a magnitude between \<open>2 ^ - 63\<close> and \<open>2 ^ 70\<close>, far inside the range of
  the normal \<^verbatim>\<open>float64\<close> numbers (\<open>2 ^ - 1022\<close> to \<open>2 ^ 1024\<close>).
\<close>

definition round_half_even :: "real \<Rightarrow> int" where
  "round_half_even q =
     (let f = \<lfloor>q\<rfloor>; r = q - of_int f
      in if r < 1 / 2 then f else if 1 / 2 < r then f + 1 else if even f then f else f + 1)"

definition round_float64 :: "real \<Rightarrow> real" where
  "round_float64 x =
     (if x = 0 then 0
      else let u = 2 powi (expo \<bar>x\<bar> - 52)
           in sgn x * (of_int (round_half_even (\<bar>x\<bar> / u)) * u))"

text \<open>
  The conversion \<^verbatim>\<open>float64(x)\<close> of an \<^verbatim>\<open>int64\<close>, and the operators \<^verbatim>\<open>/\<close> and \<^verbatim>\<open>*\<close> on
  \<^verbatim>\<open>float64\<close>. The constant \<^verbatim>\<open>100\<close> is a \<^verbatim>\<open>float64\<close> as it is.
\<close>

definition float64 :: "int64 \<Rightarrow> real" where
  "float64 x = round_float64 (real_of_int (sint x))"

definition float64_div :: "real \<Rightarrow> real \<Rightarrow> real" where
  "float64_div a b = round_float64 (a / b)"

definition float64_mul :: "real \<Rightarrow> real \<Rightarrow> real" where
  "float64_mul a b = round_float64 (a * b)"

subsection \<open>\<^verbatim>\<open>Read\<close>\<close>

text \<open>
  \<^verbatim>\<open>
  func (pr *ProgressReader) Read(p []byte) (int, error) {
      n, err := pr.Reader.Read(p)
      pr.read += int64(n)
      if pr.OnProgress != nil && pr.Size > 0 {
          progress := float64(pr.read) / float64(pr.Size) * 100
          pr.OnProgress(progress)
      }
      return n, err
  }
  \<close>
\<close>

definition Read ::
  "'s io_Reader \<Rightarrow> ('s, 'w) ProgressReader \<Rightarrow> byte list \<Rightarrow> 'w
     \<Rightarrow> read_result \<times> ('s, 'w) ProgressReader \<times> 'w" where
  "Read rd pr p w =
     (case rd (Reader pr) p of
        ((p', n, err), s') \<Rightarrow>
          let pr1 = pr\<lparr>Reader := s', read := read pr + word_of_int n\<rparr>;
              w1 = (case OnProgress pr1 of
                      None \<Rightarrow> w
                    | Some f \<Rightarrow>
                        if 0 <s Size pr1
                        then f (float64_mul
                                  (float64_div (float64 (read pr1)) (float64 (Size pr1)))
                                  100) w
                        else w)
          in ((p', n, err), pr1, w1))"


subsection \<open>Callers of \<^verbatim>\<open>Read\<close>\<close>

text \<open>
  A caller reads a stream by calling \<^verbatim>\<open>Read\<close> again and again, each time with a buffer of
  its choice. \<open>Reads rd pr ps w\<close> is the run that passes the buffers \<open>ps\<close> in turn: it
  returns the results of the calls in order, the reader and the program state afterwards.
  The caller decides when to stop; a run that has drained the source is one in which a
  call has returned \<^verbatim>\<open>io.EOF\<close>.
\<close>

fun Reads ::
  "'s io_Reader \<Rightarrow> ('s, 'w) ProgressReader \<Rightarrow> byte list list \<Rightarrow> 'w
     \<Rightarrow> read_result list \<times> ('s, 'w) ProgressReader \<times> 'w" where
  "Reads rd pr [] w = ([], pr, w)"
| "Reads rd pr (p # ps) w =
     (case Read rd pr p w of
        (r, pr1, w1) \<Rightarrow>
          (case Reads rd pr1 ps w1 of (rs, pr2, w2) \<Rightarrow> (r # rs, pr2, w2)))"


text \<open>
  The progress sink that records every value it is given, in order.
\<close>

definition record_progress :: "real \<Rightarrow> real list \<Rightarrow> real list" where
  "record_progress x tr = tr @ [x]"


text \<open>
  The percentage \<^verbatim>\<open>float64(read) / float64(Size) * 100\<close> as a function of the two counters,
  and the bound on a reader and on the percentages it has emitted: no percentage above 100,
  and \<^verbatim>\<open>read\<close> at most \<^verbatim>\<open>Size\<close>.
\<close>

definition percent :: "int64 \<Rightarrow> int64 \<Rightarrow> real" where
  "percent c t = float64_mul (float64_div (float64 c) (float64 t)) 100"

definition within_total :: "('s, 'w) ProgressReader \<Rightarrow> real list \<Rightarrow> bool" where
  "within_total pr es \<longleftrightarrow> list_all (\<lambda>e. e \<le> 100) es \<and> sint (read pr) \<le> sint (Size pr)"


subsection \<open>Wrapped sources\<close>

text \<open>
  A source of a given size: \<open>remaining\<close> tells for each state of the source how many bytes
  it still holds. Every call returns \<^verbatim>\<open>n \<ge> 0\<close> of them, whatever the buffer, and a call
  that returns \<^verbatim>\<open>io.EOF\<close> leaves none. Nothing else is asked of the source: it may return
  fewer bytes than fit the buffer, and \<^verbatim>\<open>io.EOF\<close> with the last bytes or after them.
\<close>

definition sized_source :: "'s io_Reader \<Rightarrow> ('s \<Rightarrow> nat) \<Rightarrow> bool" where
  "sized_source rd remaining \<longleftrightarrow>
     (\<forall>s p r s'. rd s p = (r, s') \<longrightarrow>
        0 \<le> res_n r \<and> int (remaining s) = res_n r + int (remaining s') \<and>
        (res_err r = Some EOF \<longrightarrow> remaining s' = 0))"

text \<open>
  Two such sources. Both hold the bytes still to be delivered and copy as many of them as
  fit into the buffer. \<open>bytes_Read\<close> behaves as Go's \<^verbatim>\<open>bytes.Reader\<close>: once the bytes are
  used up, a call returns \<^verbatim>\<open>(0, io.EOF)\<close>. \<open>dataErr_Read\<close> reports \<^verbatim>\<open>io.EOF\<close> together
  with the last bytes, as the \<^verbatim>\<open>io.Reader\<close> contract allows.
\<close>

definition bytes_Read :: "byte list io_Reader" where
  "bytes_Read s p =
     (if s = [] then ((p, 0, Some EOF), s)
      else let n = min (length p) (length s)
           in ((take n s @ drop n p, int n, None), drop n s))"

definition dataErr_Read :: "byte list io_Reader" where
  "dataErr_Read s p =
     (let n = min (length p) (length s)
      in ((take n s @ drop n p, int n, if n = length s then Some EOF else None),
          drop n s))"


section \<open>The upload pipeline\<close>

subsection \<open>Streams and the standard library's copy loops\<close>

text \<open>
  \<^verbatim>\<open>main\<close> reads two streams that it does not produce itself: the file and the response
  body. It never looks at a buffer except through \<^verbatim>\<open>io.Copy\<close> and \<^verbatim>\<open>io.ReadAll\<close>, which
  use the bytes \<^verbatim>\<open>p[0:n]\<close> that a call delivered. Such a stream is a function from its
  state to the bytes one call of \<^verbatim>\<open>Read\<close> delivers (\<^verbatim>\<open>n\<close> is their number), the error of
  that call and the next state. A writer takes its state and the bytes and returns
  \<^verbatim>\<open>(n, err)\<close> and its next state.
\<close>

type_synonym 's stream = "'s \<Rightarrow> (byte list \<times> error option) \<times> 's"
type_synonym 'd io_Writer = "'d \<Rightarrow> byte list \<Rightarrow> (int \<times> error option) \<times> 'd"

text \<open>
  \<^verbatim>\<open>io.Copy(dst, src)\<close> of Go's standard library, for a source without \<^verbatim>\<open>WriteTo\<close> and a
  destination without \<^verbatim>\<open>ReadFrom\<close> (the case of \<^verbatim>\<open>io.Copy(part, teeReader)\<close>):
  \<^verbatim>\<open>
  for {
      nr, er := src.Read(buf)
      if nr > 0 {
          nw, ew := dst.Write(buf[0:nr])
          if nw < 0 || nr < nw {
              nw = 0
              if ew == nil { ew = errInvalidWrite }
          }
          written += int64(nw)
          if ew != nil { err = ew; break }
          if nr != nw { err = ErrShortWrite; break }
      }
      if er != nil {
          if er != EOF { err = er }
          break
      }
  }
  return written, err
  \<close>
  The loop need not end (a source may return \<^verbatim>\<open>(0, nil)\<close> for ever): the result \<open>None\<close>
  stands for a call that does not return.
\<close>

definition errInvalidWrite :: error where
  "errInvalidWrite = Err ''invalid write result''"

definition ErrShortWrite :: error where
  "ErrShortWrite = Err ''short write''"

partial_function (option) copyBuffer ::
  "'d io_Writer \<Rightarrow> 's stream \<Rightarrow> 'd \<Rightarrow> 's \<Rightarrow> int64
     \<Rightarrow> ((int64 \<times> error option) \<times> 'd \<times> 's) option" where
  "copyBuffer wr rd d s written =
     (case rd s of
        ((chunk, er), s') \<Rightarrow>
          if chunk \<noteq> [] then
            (case wr d chunk of
               ((nw0, ew0), d') \<Rightarrow>
                 let nr = int (length chunk);
                     bad = (nw0 < 0 \<or> nr < nw0);
                     nw = (if bad then 0 else nw0);
                     ew = (if bad \<and> ew0 = None then Some errInvalidWrite else ew0);
                     written' = written + word_of_int nw
                 in if ew \<noteq> None then Some ((written', ew), d', s')
                    else if nr \<noteq> nw then Some ((written', Some ErrShortWrite), d', s')
                    else if er \<noteq> None
                      then Some ((written', if er = Some EOF then None else er), d', s')
                    else copyBuffer wr rd d' s' written')
          else if er \<noteq> None
            then Some ((written, if er = Some EOF then None else er), d, s')
          else copyBuffer wr rd d s' written)"

text \<open>
  \<^verbatim>\<open>io.ReadAll(r)\<close>: reads until a call returns an error, appends what every call
  delivered, and reports \<^verbatim>\<open>io.EOF\<close> as \<^verbatim>\<open>nil\<close>.
  \<^verbatim>\<open>
  for {
      n, err := r.Read(b[len(b):cap(b)])
      b = b[:len(b)+n]
      if err != nil {
          if err == EOF { err = nil }
          return b, err
      }
      ...
  }
  \<close>
\<close>

partial_function (option) ReadAll_loop ::
  "'s stream \<Rightarrow> 's \<Rightarrow> byte list \<Rightarrow> ((byte list \<times> error option) \<times> 's) option" where
  "ReadAll_loop rd s b =
     (case rd s of
        ((chunk, err), s') \<Rightarrow>
          (case err of
             Some e \<Rightarrow> Some ((b @ chunk, if e = EOF then None else Some e), s')
           | None \<Rightarrow> ReadAll_loop rd s' (b @ chunk)))"


declare copyBuffer.simps [code]
declare ReadAll_loop.simps [code]

definition io_Copy ::
  "'d io_Writer \<Rightarrow> 's stream \<Rightarrow> 'd \<Rightarrow> 's \<Rightarrow> ((int64 \<times> error option) \<times> 'd \<times> 's) option" where
  "io_Copy wr rd d s = copyBuffer wr rd d s 0"

definition io_ReadAll :: "'s stream \<Rightarrow> 's \<Rightarrow> ((byte list \<times> error option) \<times> 's) option" where
  "io_ReadAll rd s = ReadAll_loop rd s []"

text \<open>
  A stream ends within \<open>k\<close> reads when one of its next \<open>k\<close> calls returns an error
  (\<^verbatim>\<open>io.EOF\<close> or another).
\<close>

fun ends_within :: "'s stream \<Rightarrow> 's \<Rightarrow> nat \<Rightarrow> bool" where
  "ends_within rd s 0 = False"
| "ends_within rd s (Suc k) =
     (case rd s of ((chunk, err), s') \<Rightarrow> err \<noteq> None \<or> ends_within rd s' k)"

text \<open>
  \<^verbatim>\<open>io.TeeReader(r, w)\<close>: a read of the tee reads from \<^verbatim>\<open>r\<close> and writes what it read to
  \<^verbatim>\<open>w\<close>; an error of that write is returned, with the count of the write.
  \<^verbatim>\<open>
  n, err = t.r.Read(p)
  if n > 0 {
      if n, err := t.w.Write(p[:n]); err != nil { return n, err }
  }
  return
  \<close>
\<close>

definition TeeReader_Read :: "'s stream \<Rightarrow> 'd io_Writer \<Rightarrow> ('s \<times> 'd) stream" where
  "TeeReader_Read rd wr =
     (\<lambda>(s, d).
        case rd s of
          ((chunk, err), s') \<Rightarrow>
            if chunk \<noteq> [] then
              (case wr d chunk of
                 ((n, werr), d') \<Rightarrow>
                   if werr \<noteq> None then ((take (nat n) chunk, werr), (s', d'))
                   else ((chunk, err), (s', d')))
            else ((chunk, err), (s', d)))"

text \<open>
  The form part returned by \<^verbatim>\<open>CreateFormFile\<close> writes into \<^verbatim>\<open>body\<close>, a
  \<^verbatim>\<open>bytes.Buffer\<close>, whose \<^verbatim>\<open>Write\<close> appends all the bytes and returns no error.
\<close>

definition part_Write :: "byte list io_Writer" where
  "part_Write body p = ((int (length p), None), body @ p)"

subsection \<open>The progress bar\<close>

text \<open>
  Modelled from the spec: the progress bar of \<^verbatim>\<open>github.com/schollz/progressbar/v3\<close> is
  not among the sources. The spec (3, ProgressState) gives its state: the total size it was
  configured with and the bytes counted so far.
\<close>

record ProgressState =
  totalSize :: int64
  bytesSoFar :: int64

text \<open>
  Modelled from the spec: \<^verbatim>\<open>progressbar.NewOptions64(max, ...)\<close>, missing from the sources,
  is a progress state configured with that total and nothing counted (spec 4.2, step 4:
  "a ProgressObservingReader configured with that length").
\<close>

definition NewOptions64 :: "int64 \<Rightarrow> ProgressState" where
  "NewOptions64 m = \<lparr>totalSize = m, bytesSoFar = 0\<rparr>"

text \<open>
  Modelled from the spec: \<^verbatim>\<open>bar.Add(n)\<close>, missing from the sources, adds \<^verbatim>\<open>n\<close> to the
  bytes counted so far (spec 4.1: "adds n to bytesSoFar").
\<close>

definition bar_Add :: "ProgressState \<Rightarrow> int \<Rightarrow> ProgressState" where
  "bar_Add bar n = bar\<lparr>bytesSoFar := bytesSoFar bar + word_of_int n\<rparr>"

text \<open>
  Modelled from the spec: \<^verbatim>\<open>bar.Write(b)\<close>, missing from the sources, through which
  \<^verbatim>\<open>io.TeeReader(file, bar)\<close> feeds the upload bar: it counts the bytes and reports all of
  them written (spec 4.1: "no side effects beyond the progress sink invocation"). What the
  library does when the count passes the total is not in the spec and is not modelled.
\<close>

definition bar_Write :: "ProgressState io_Writer" where
  "bar_Write bar b = ((int (length b), None), bar_Add bar (int (length b)))"

text \<open>
  Modelled from the spec: the \<^verbatim>\<open>Read\<close> method of \<^verbatim>\<open>progressbar.NewReader(r, bar)\<close>, missing
  from the sources. By the spec (4.1) it delegates to the wrapped source's read, adds \<^verbatim>\<open>n\<close> to
  the bytes counted and passes the source's result through unchanged.
\<close>

definition progressbar_Reader_Read :: "'s stream \<Rightarrow> ('s \<times> ProgressState) stream" where
  "progressbar_Reader_Read rd =
     (\<lambda>(s, bar).
        case rd s of
          ((chunk, err), s') \<Rightarrow> ((chunk, err), (s', bar_Add bar (int (length chunk)))))"

subsection \<open>The environment of a run\<close>

text \<open>
  The fields of \<^verbatim>\<open>http.Response\<close> that \<^verbatim>\<open>main\<close> uses; \<open>Body\<close> is the state of the body
  stream.
\<close>

record 'b Response =
  StatusCode :: int
  ContentLength :: int64
  Body :: 'b

text \<open>
  Everything \<^verbatim>\<open>main\<close> gets from outside: the two flags after \<^verbatim>\<open>flag.Parse()\<close>, and the
  results of the calls into the operating system, the multipart writer and the HTTP client.
  \<open>CreateFormFile\<close> returns the bytes it has written to the request body (the part's
  header) and \<open>writer_Close\<close> is what \<^verbatim>\<open>writer.Close()\<close> writes (the closing boundary).
\<close>

record ('f, 'b) Env =
  filePath :: string
  serverURL :: string
  os_Open :: "string \<Rightarrow> error + 'f"
  file_Stat :: "'f \<Rightarrow> error + int64"
  file_Read :: "'f stream"
  filepath_Base :: "string \<Rightarrow> string"
  CreateFormFile :: "string \<Rightarrow> string \<Rightarrow> error + byte list"
  writer_Close :: "byte list"
  FormDataContentType :: string
  http_NewRequest :: "string \<Rightarrow> string \<Rightarrow> error option"
  client_Do :: "string \<Rightarrow> string \<Rightarrow> byte list \<Rightarrow> error + 'b Response"
  body_Read :: "'b stream"

subsection \<open>What a run does\<close>

text \<open>
  A run of \<^verbatim>\<open>main\<close> is the sequence of its effects, in order: what it prints on standard
  output, the opening and closing of the file, the request it sends, the reading of the
  response body and the closing of it, and the end of the process with its exit status.
  Each message is one call of \<^verbatim>\<open>fmt.Printf\<close> or \<^verbatim>\<open>fmt.Println\<close> with its arguments (the
  fixed text is left out; \<open>MsgSize\<close> stands for the text \<^verbatim>\<open>formatBytes(fileSize)\<close>). What the
  progress bars draw on standard error is not part of the run.
\<close>

datatype message =
    MsgMissingArgs
  | MsgOpenFailed error
  | MsgStatFailed error
  | MsgFile string
  | MsgSize int64
  | MsgTarget string
  | MsgCreateFormFailed error
  | MsgReadFileFailed error
  | MsgConnecting
  | MsgNewRequestFailed error
  | MsgSendFailed error
  | MsgReceiving
  | MsgReadResponseFailed error
  | MsgStatus int
  | MsgSuccess
  | MsgFailure
  | MsgServerReturned "byte list"

text \<open>
  \<open>Do url ctype body\<close> is the call \<^verbatim>\<open>client.Do(req)\<close> for the \<^verbatim>\<open>POST\<close> request to \<open>url\<close>
  with that \<^verbatim>\<open>Content-Type\<close> and body. \<open>ReadBody bar2\<close> is the call of \<^verbatim>\<open>io.ReadAll\<close> on the
  response body: through the progress reader with the bar that ends as \<open>bar2\<close>, or
  directly (\<open>None\<close>). \<open>Exit n\<close> ends the process with status \<open>n\<close>.
\<close>

datatype event =
    Print message
  | Usage
  | FileOpen
  | FileClose
  | Do string string "byte list"
  | ReadBody "ProgressState option"
  | BodyClose
  | Exit int

subsection \<open>\<^verbatim>\<open>main\<close>\<close>

text \<open>
  \<^verbatim>\<open>main\<close> is a straight line of steps, each of which may end the process with
  \<^verbatim>\<open>os.Exit(1)\<close>. Its model is cut at the places the source marks: a step returns \<open>Inl\<close>
  with its effects when it has ended the process, \<open>Inr\<close> with its effects and the values
  the next steps use otherwise; \<open>None\<close> is a step that does not return.
  \<^verbatim>\<open>os.Exit\<close> ends the process at once: the deferred \<^verbatim>\<open>file.Close()\<close> and
  \<^verbatim>\<open>resp.Body.Close()\<close> run only when \<^verbatim>\<open>main\<close> returns, last deferred first.
\<close>

definition StatusOK :: int where
  "StatusOK = 200"

text \<open>
  Lines 28-39: \<^verbatim>\<open>os.Open(*filePath)\<close>, \<^verbatim>\<open>defer file.Close()\<close>, \<^verbatim>\<open>file.Stat()\<close>.
\<close>

definition main_open :: "('f, 'b) Env \<Rightarrow> event list + (event list \<times> 'f \<times> int64)" where
  "main_open env =
     (case os_Open env (filePath env) of
        Inl e \<Rightarrow> Inl [Print (MsgOpenFailed e), Exit 1]
      | Inr file \<Rightarrow>
          (case file_Stat env file of
             Inl e \<Rightarrow> Inl [FileOpen, Print (MsgStatFailed e), Exit 1]
           | Inr fileSize \<Rightarrow> Inr ([FileOpen], file, fileSize)))"

text \<open>
  Lines 41-91: the three lines of the header, \<^verbatim>\<open>writer.CreateFormFile("file", fileName)\<close>
  with \<^verbatim>\<open>fileName := filepath.Base(*filePath)\<close>, the upload bar
  \<^verbatim>\<open>progressbar.NewOptions64(fileSize, ...)\<close>,
  \<^verbatim>\<open>io.Copy(part, io.TeeReader(file, bar))\<close> and \<^verbatim>\<open>writer.Close()\<close>, whose error is ignored.
\<close>

definition main_encode ::
  "('f, 'b) Env \<Rightarrow> 'f \<Rightarrow> int64 \<Rightarrow> (event list + (event list \<times> byte list)) option" where
  "main_encode env file fileSize =
     (let fileName = filepath_Base env (filePath env);
          tr = [Print (MsgFile fileName), Print (MsgSize fileSize),
                Print (MsgTarget (serverURL env))]
      in case CreateFormFile env ''file'' fileName of
           Inl e \<Rightarrow> Some (Inl (tr @ [Print (MsgCreateFormFailed e), Exit 1]))
         | Inr header \<Rightarrow>
             (case io_Copy part_Write (TeeReader_Read (file_Read env) bar_Write) header
                     (file, NewOptions64 fileSize) of
                None \<Rightarrow> None
              | Some ((written, err), body, st) \<Rightarrow>
                  (case err of
                     Some e \<Rightarrow> Some (Inl (tr @ [Print (MsgReadFileFailed e), Exit 1]))
                   | None \<Rightarrow> Some (Inr (tr, body @ writer_Close env)))))"

text \<open>
  Lines 93-114: \<^verbatim>\<open>http.NewRequest("POST", *serverURL, body)\<close>, the \<^verbatim>\<open>Content-Type\<close> header
  and one call \<^verbatim>\<open>client.Do(req)\<close>.
\<close>

definition main_send ::
  "('f, 'b) Env \<Rightarrow> byte list \<Rightarrow> event list + (event list \<times> 'b Response)" where
  "main_send env body =
     (case http_NewRequest env ''POST'' (serverURL env) of
        Some e \<Rightarrow> Inl [Print MsgConnecting, Print (MsgNewRequestFailed e), Exit 1]
      | None \<Rightarrow>
          (let req = Do (serverURL env) (FormDataContentType env) body
           in case client_Do env (serverURL env) (FormDataContentType env) body of
                Inl e \<Rightarrow> Inl [Print MsgConnecting, req, Print (MsgSendFailed e), Exit 1]
              | Inr resp \<Rightarrow> Inr ([Print MsgConnecting, req], resp)))"

text \<open>
  Lines 120-139:
  \<^verbatim>\<open>
  contentLength := resp.ContentLength
  var responseBody []byte
  if contentLength > 0 {
      bar2 := progressbar.NewOptions64(contentLength, ...)
      respBodyReader := progressbar.NewReader(resp.Body, bar2)
      responseBody, err = io.ReadAll(&respBodyReader)
  } else {
      responseBody, err = io.ReadAll(resp.Body)
  }
  \<close>
  The result is \<^verbatim>\<open>(responseBody, err)\<close>, the bar if there is one, and the state of the body
  stream.
\<close>

definition read_response ::
  "'b stream \<Rightarrow> 'b Response \<Rightarrow> ((byte list \<times> error option) \<times> ProgressState option \<times> 'b) option" where
  "read_response rd resp =
     (let contentLength = ContentLength resp
      in if 0 <s contentLength then
           (let bar2 = NewOptions64 contentLength
            in case io_ReadAll (progressbar_Reader_Read rd) (Body resp, bar2) of
                 None \<Rightarrow> None
               | Some (r, (b, bar2')) \<Rightarrow> Some (r, Some bar2', b))
         else
           (case io_ReadAll rd (Body resp) of
              None \<Rightarrow> None
            | Some (r, b) \<Rightarrow> Some (r, None, b)))"

text \<open>
  Lines 116-144: the line announcing the response, the reading of the body and the exit when
  it fails.
\<close>

definition main_receive ::
  "('f, 'b) Env \<Rightarrow> 'b Response \<Rightarrow> (event list + (event list \<times> byte list)) option" where
  "main_receive env resp =
     (case read_response (body_Read env) resp of
        None \<Rightarrow> None
      | Some ((responseBody, err), bar2, b) \<Rightarrow>
          (case err of
             Some e \<Rightarrow>
               Some (Inl [Print MsgReceiving, ReadBody bar2,
                          Print (MsgReadResponseFailed e), Exit 1])
           | None \<Rightarrow> Some (Inr ([Print MsgReceiving, ReadBody bar2], responseBody))))"

text \<open>
  Lines 146-154:
  \<^verbatim>\<open>
  fmt.Printf("... %d\n", resp.StatusCode)
  if resp.StatusCode == http.StatusOK { fmt.Println(<success>) } else { fmt.Printf(<failure>) }
  fmt.Printf("... %s\n", string(responseBody))
  \<close>
\<close>

definition main_report :: "'b Response \<Rightarrow> byte list \<Rightarrow> event list" where
  "main_report resp responseBody =
     [Print (MsgStatus (StatusCode resp)),
      Print (if StatusCode resp = StatusOK then MsgSuccess else MsgFailure),
      Print (MsgServerReturned responseBody)]"

text \<open>
  The whole of \<^verbatim>\<open>main\<close>: the check of the flags (lines 22-26), the steps in order, and the
  return, at which the deferred calls run and the process ends with status 0.
\<close>

definition main :: "('f, 'b) Env \<Rightarrow> event list option" where
  "main env =
     (if filePath env = [] \<or> serverURL env = [] then
        Some [Print MsgMissingArgs, Usage, Exit 1]
      else
        case main_open env of
          Inl tr \<Rightarrow> Some tr
        | Inr (tr1, file, fileSize) \<Rightarrow>
            (case main_encode env file fileSize of
               None \<Rightarrow> None
             | Some (Inl tr) \<Rightarrow> Some (tr1 @ tr)
             | Some (Inr (tr2, body)) \<Rightarrow>
                 (case main_send env body of
                    Inl tr \<Rightarrow> Some (tr1 @ tr2 @ tr)
                  | Inr (tr3, resp) \<Rightarrow>
                      (case main_receive env resp of
                         None \<Rightarrow> None
                       | Some (Inl tr) \<Rightarrow> Some (tr1 @ tr2 @ tr3 @ tr)
                       | Some (Inr (tr4, responseBody)) \<Rightarrow>
                           Some (tr1 @ tr2 @ tr3 @ tr4 @ main_report resp responseBody
                                 @ [BodyClose, FileClose, Exit 0])))))"

subsection \<open>Reading a run\<close>

text \<open>
  The exit status of a run, the events that are a status line, a request and a reading of
  the response body.
\<close>

fun exit_status :: "event list \<Rightarrow> int option" where
  "exit_status [] = None"
| "exit_status (Exit n # tr) = Some n"
| "exit_status (e # tr) = exit_status tr"


fun is_Do :: "event \<Rightarrow> bool" where
  "is_Do (Do url ctype body) = True"
| "is_Do e = False"

fun is_ReadBody :: "event \<Rightarrow> bool" where
  "is_ReadBody (ReadBody bar) = True"
| "is_ReadBody e = False"

text \<open>
  Whether the program holds the file's handle after a run: from \<^verbatim>\<open>os.Open\<close> until it calls
  \<^verbatim>\<open>file.Close()\<close>. The end of the process is not a release by the program.
\<close>

fun handle_step :: "bool \<Rightarrow> event \<Rightarrow> bool" where
  "handle_step h FileOpen = True"
| "handle_step h FileClose = False"
| "handle_step h e = h"

definition file_held :: "event list \<Rightarrow> bool" where
  "file_held tr = foldl handle_step False tr"

text \<open>
  The successful range of status codes in the words of the spec, which calls every other
  status "non-2xx". It is not taken from the source, which compares with
  \<^verbatim>\<open>http.StatusOK\<close>.
\<close>

definition spec_successful_range :: "int \<Rightarrow> bool" where
  "spec_successful_range code \<longleftrightarrow> 200 \<le> code \<and> code < 300"





subsection \<open>A scripted environment\<close>

text \<open>
  A stream that delivers the results of a list one by one and \<^verbatim>\<open>(0, io.EOF)\<close> after them,
  and an environment in which the file and the response body are such streams and
  \<^verbatim>\<open>client.Do\<close> returns a given result.
\<close>

type_synonym script = "(byte list \<times> error option) list"

definition script_Read :: "script stream" where
  "script_Read s = (case s of [] \<Rightarrow> (([], Some EOF), []) | r # rs \<Rightarrow> (r, rs))"

definition scripted_env :: "script \<Rightarrow> (error + script Response) \<Rightarrow> (script, script) Env" where
  "scripted_env file result =
     \<lparr>filePath = ''/tmp/a.bin'', serverURL = ''http://host/upload'',
      os_Open = (\<lambda>path. Inr file),
      file_Stat = (\<lambda>f. Inr (word_of_nat (length (concat (map fst f))))),
      file_Read = script_Read,
      filepath_Base = (\<lambda>path. ''a.bin''),
      CreateFormFile = (\<lambda>field name. Inr [45, 45]),
      writer_Close = [45],
      FormDataContentType = ''multipart/form-data; boundary=b'',
      http_NewRequest = (\<lambda>method url. None),
      client_Do = (\<lambda>url ctype body. result),
      body_Read = script_Read\<rparr>"

section \<open>Properties of ProgressReader\<close>

subsection \<open>Auxiliary facts\<close>

lemma sint_add_of_int:
  assumes "- (2 ^ 63) \<le> sint (a :: int64) + n" "sint a + n < 2 ^ 63"
  shows "sint (a + word_of_int n) = sint a + n"
proof -
  have "a + word_of_int n = word_of_int (sint a + n)"
    by simp
  then have "sint (a + word_of_int n) = signed_take_bit 63 (sint a + n)"
    by (simp only: sint_sbintrunc') simp
  also have "\<dots> = sint a + n"
    using assms by (simp add: signed_take_bit_int_eq_self)
  finally show ?thesis .
qed

lemma Read_fields:
  assumes "Read rd pr p w = (r, pr', w')"
  shows "read pr' = read pr + word_of_int (res_n r)"
    and "Size pr' = Size pr"
    and "OnProgress pr' = OnProgress pr"
    and "(r, Reader pr') = rd (Reader pr) p"
  using assms by (auto simp: Read_def res_n_def Let_def split: prod.splits)

lemma Read_world:
  assumes "Read rd pr p w = (r, pr', w')"
  shows "w' = (case OnProgress pr of None \<Rightarrow> w
               | Some f \<Rightarrow> if 0 <s Size pr then f (percent (read pr') (Size pr)) w else w)"
  using assms by (auto simp: Read_def res_n_def percent_def Let_def split: prod.splits option.splits)


lemma Reads_fields:
  "Reads rd pr ps w = (rs, pr', w') \<Longrightarrow>
     read pr' = read pr + word_of_int (sum_list (map res_n rs)) \<and>
     Size pr' = Size pr \<and> OnProgress pr' = OnProgress pr \<and> length rs = length ps"
proof (induction ps arbitrary: pr w rs pr' w')
  case Nil
  then show ?case by simp
next
  case (Cons p ps)
  obtain r pr1 w1 where step: "Read rd pr p w = (r, pr1, w1)"
    by (metis prod_cases3)
  obtain rs1 pr2 w2 where rest: "Reads rd pr1 ps w1 = (rs1, pr2, w2)"
    by (metis prod_cases3)
  from Cons.prems step rest have eqs: "rs = r # rs1" "pr' = pr2" "w' = w2"
    by simp_all
  from Cons.IH [OF rest] Read_fields [OF step] eqs show ?case
    by (simp add: add.assoc)
qed


text \<open>
  The exponent bounds its argument, and rounding keeps a positive number between the two
  powers of 2 around it. So rounding is monotone: numbers of different exponents are
  separated by a power of 2, and numbers of one exponent are rounded on one grid.
\<close>

lemma expo_ge1_bounds:
  "1 \<le> x \<Longrightarrow> 2 powi expo_ge1 x \<le> x \<and> x < 2 powi (expo_ge1 x + 1)"
proof (induction x rule: expo_ge1.induct)
  case (1 x)
  show ?case
  proof (cases "x < 2")
    case True
    with 1(2) show ?thesis by simp
  next
    case False
    then have "1 \<le> x / 2" by simp
    from 1(1) [OF False this] False show ?thesis
      by (simp add: power_int_add field_simps)
  qed
qed

lemma expo_lt1_bounds:
  "0 < x \<Longrightarrow> x < 1 \<Longrightarrow> 2 powi expo_lt1 x \<le> x \<and> x < 2 powi (expo_lt1 x + 1)"
proof (induction x rule: expo_lt1.induct)
  case (1 x)
  have nb: "\<not> (x \<le> 0 \<or> 1 \<le> x)" using 1(2,3) by simp
  show ?case
  proof (cases "2 * x < 1")
    case True
    from 1(1) [OF nb _ True] 1(2) nb show ?thesis
      by (simp add: power_int_add power_int_diff field_simps)
  next
    case False
    then have "expo_lt1 (2 * x) = 0" by simp
    with nb False 1(3) show ?thesis
      by (simp add: power_int_minus field_simps)
  qed
qed

lemma expo_bounds:
  "0 < x \<Longrightarrow> 2 powi expo x \<le> x \<and> x < 2 powi (expo x + 1)"
  using expo_ge1_bounds [of x] expo_lt1_bounds [of x] by (simp add: expo_def)

lemma expo_mono:
  assumes "0 < x" "x \<le> (y::real)"
  shows "expo x \<le> expo y"
proof (rule ccontr)
  assume "\<not> expo x \<le> expo y"
  then have "(2::real) powi (expo y + 1) \<le> 2 powi expo x"
    by (intro power_int_increasing) simp_all
  with expo_bounds [of x] expo_bounds [of y] assms show False by linarith
qed

lemma round_half_even_bounds:
  "\<lfloor>q\<rfloor> \<le> round_half_even q" "round_half_even q \<le> \<lfloor>q\<rfloor> + 1"
  by (simp_all add: round_half_even_def Let_def)

lemma round_half_even_mono:
  assumes "q \<le> q'"
  shows "round_half_even q \<le> round_half_even q'"
proof (cases "\<lfloor>q\<rfloor> = \<lfloor>q'\<rfloor>")
  case True
  with assms show ?thesis
    by (auto simp: round_half_even_def Let_def)
next
  case False
  with assms have "\<lfloor>q\<rfloor> + 1 \<le> \<lfloor>q'\<rfloor>"
    using floor_mono [OF assms] by simp
  with round_half_even_bounds(2) [of q] round_half_even_bounds(1) [of q'] show ?thesis
    by linarith
qed

lemma significand_bounds:
  assumes "0 < (x::real)"
  shows "2 ^ 52 \<le> round_half_even (x / 2 powi (expo x - 52))"
    and "round_half_even (x / 2 powi (expo x - 52)) \<le> 2 ^ 53"
proof -
  let ?u = "(2::real) powi (expo x - 52)"
  have u: "0 < ?u" by simp
  note b = expo_bounds [OF assms]
  have "2 powi expo x = 2 ^ 52 * ?u" "2 powi (expo x + 1) = 2 ^ 53 * ?u"
    by (simp_all add: power_int_diff power_int_add)
  with b have q: "2 ^ 52 \<le> x / ?u" "x / ?u < 2 ^ 53"
    using u by (simp_all add: field_simps)
  have "(2::int) ^ 52 \<le> \<lfloor>x / ?u\<rfloor>"
    using q(1) by (simp add: le_floor_iff)
  with round_half_even_bounds(1) [of "x / ?u"]
  show "2 ^ 52 \<le> round_half_even (x / ?u)" by linarith
  have "\<lfloor>x / ?u\<rfloor> < (2::int) ^ 53"
    using q(2) by (simp add: floor_less_iff)
  with round_half_even_bounds(2) [of "x / ?u"]
  show "round_half_even (x / ?u) \<le> 2 ^ 53" by linarith
qed

lemma round_float64_pos:
  "0 < x \<Longrightarrow>
     round_float64 x =
       of_int (round_half_even (x / 2 powi (expo x - 52))) * 2 powi (expo x - 52)"
  by (simp add: round_float64_def Let_def)

lemma round_float64_pos_bounds:
  assumes "0 < (x::real)"
  shows "2 powi expo x \<le> round_float64 x" and "round_float64 x \<le> 2 powi (expo x + 1)"
proof -
  let ?u = "(2::real) powi (expo x - 52)"
  let ?m = "round_half_even (x / ?u)"
  have r: "round_float64 x = of_int ?m * ?u"
    using assms by (rule round_float64_pos)
  have p: "2 powi expo x = 2 ^ 52 * ?u" "2 powi (expo x + 1) = 2 ^ 53 * ?u"
    by (simp_all add: power_int_diff power_int_add)
  have "real_of_int (2 ^ 52) \<le> of_int ?m" "real_of_int ?m \<le> of_int (2 ^ 53)"
    using significand_bounds [OF assms] by (simp_all only: of_int_le_iff)
  then have "2 ^ 52 * ?u \<le> of_int ?m * ?u" "of_int ?m * ?u \<le> 2 ^ 53 * ?u"
    by (simp_all add: mult_right_mono)
  with r p show "2 powi expo x \<le> round_float64 x" "round_float64 x \<le> 2 powi (expo x + 1)"
    by simp_all
qed

lemma round_float64_pos_mono:
  assumes "0 < x" "x \<le> (y::real)"
  shows "round_float64 x \<le> round_float64 y"
proof (cases "expo x = expo y")
  case True
  let ?u = "(2::real) powi (expo y - 52)"
  have "x / ?u \<le> y / ?u"
    using assms(2) by (simp add: divide_right_mono)
  then have "real_of_int (round_half_even (x / ?u)) \<le> of_int (round_half_even (y / ?u))"
    using round_half_even_mono by simp
  then have "of_int (round_half_even (x / ?u)) * ?u \<le> of_int (round_half_even (y / ?u)) * ?u"
    by (simp add: mult_right_mono)
  with assms True show ?thesis
    by (simp add: round_float64_pos)
next
  case False
  with expo_mono [OF assms] have "expo x + 1 \<le> expo y" by simp
  then have "(2::real) powi (expo x + 1) \<le> 2 powi expo y"
    by (intro power_int_increasing) simp_all
  with round_float64_pos_bounds(2) [OF assms(1)] round_float64_pos_bounds(1) [of y] assms
  show ?thesis by linarith
qed

lemma round_float64_minus: "round_float64 (- x) = - round_float64 x"
  by (simp add: round_float64_def sgn_minus Let_def)

lemma round_float64_nonneg:
  assumes "0 \<le> x"
  shows "0 \<le> round_float64 x"
proof (cases "x = 0")
  case True
  then show ?thesis by (simp add: round_float64_def)
next
  case False
  with assms have "0 < x" by simp
  from round_float64_pos_bounds(1) [OF this] have "2 powi expo x \<le> round_float64 x" .
  moreover have "(0::real) < 2 powi expo x" by simp
  ultimately show ?thesis by linarith
qed

lemma round_float64_mono:
  assumes "x \<le> y"
  shows "round_float64 x \<le> round_float64 y"
proof -
  consider "0 < x" | "x \<le> 0" "0 \<le> y" | "y < 0" by linarith
  then show ?thesis
  proof cases
    case 1
    from 1 assms show ?thesis by (rule round_float64_pos_mono)
  next
    case 2
    then have "0 \<le> round_float64 (- x)" "0 \<le> round_float64 y"
      by (simp_all add: round_float64_nonneg)
    then show ?thesis by (simp add: round_float64_minus)
  next
    case 3
    with assms have "0 < - y" "- y \<le> - x" by simp_all
    then have "round_float64 (- y) \<le> round_float64 (- x)"
      by (rule round_float64_pos_mono)
    then show ?thesis by (simp add: round_float64_minus)
  qed
qed

lemma round_float64_1: "round_float64 1 = 1"
  by (simp add: round_float64_def expo_def round_half_even_def)

lemma round_float64_100: "round_float64 100 = 100"
  by (simp add: round_float64_def expo_def round_half_even_def)

lemma float64_mono: "sint a \<le> sint b \<Longrightarrow> float64 a \<le> float64 b"
  unfolding float64_def by (rule round_float64_mono) (simp del: of_int_sint)

lemma float64_ge_1:
  assumes "0 <s t"
  shows "1 \<le> float64 t"
proof -
  have "(1::real) \<le> real_of_int (sint t)"
    using assms by (simp add: word_sless_alt del: of_int_sint)
  from round_float64_mono [OF this] show ?thesis
    by (simp add: float64_def round_float64_1 del: of_int_sint)
qed

lemma percent_mono:
  assumes "0 <s t" "sint a \<le> sint b"
  shows "percent a t \<le> percent b t"
proof -
  have t: "0 < float64 t"
    using float64_ge_1 [OF assms(1)] by simp
  have "float64 a / float64 t \<le> float64 b / float64 t"
    using float64_mono [OF assms(2)] t by (simp add: divide_right_mono)
  then have "float64_div (float64 a) (float64 t) \<le> float64_div (float64 b) (float64 t)"
    unfolding float64_div_def by (rule round_float64_mono)
  then have "float64_div (float64 a) (float64 t) * 100 \<le> float64_div (float64 b) (float64 t) * 100"
    by simp
  then show ?thesis
    unfolding percent_def float64_mul_def by (rule round_float64_mono)
qed

lemma percent_full:
  assumes "0 <s t"
  shows "percent t t = 100"
proof -
  have "float64 t \<noteq> 0"
    using float64_ge_1 [OF assms] by simp
  then show ?thesis
    by (simp add: percent_def float64_div_def float64_mul_def round_float64_1 round_float64_100)
qed

text \<open>
  Two values that show the rounding: one third of the way the percentage is not \<open>100 / 3\<close>
  but the \<^verbatim>\<open>float64\<close> next to it, and a count of \<open>2 ^ 53 + 1\<close> is converted to \<open>2 ^ 53\<close>.
\<close>

lemma percent_one_third: "percent 1 3 = 2345624805922133 / 2 ^ 46"
  by (simp add: percent_def float64_def float64_div_def float64_mul_def round_float64_def
      expo_def round_half_even_def)

lemma percent_rounded_count: "percent 9007199254740993 9007199254740992 = 100"
  by (simp add: percent_def float64_def float64_div_def float64_mul_def round_float64_def
      expo_def round_half_even_def)

lemmas float64_eval =
  float64_def float64_div_def float64_mul_def round_float64_def expo_def round_half_even_def

lemma Reads_recorded:
  assumes "OnProgress pr = Some record_progress" "0 <s Size pr"
    and "Reads rd pr ps w = (rs, pr', w')"
    and "\<forall>r\<in>set rs. 0 \<le> res_n r"
    and "sint (read pr) + sum_list (map res_n rs) < 2 ^ 63"
  shows "\<exists>es. w' = w @ es \<and> length es = length ps \<and> sorted es \<and>
           (\<forall>e\<in>set es. percent (read pr) (Size pr) \<le> e \<and> e \<le> percent (read pr') (Size pr)) \<and>
           sint (read pr') = sint (read pr) + sum_list (map res_n rs)"
  using assms
proof (induction ps arbitrary: pr w rs pr' w')
  case Nil
  then show ?case by simp
next
  case (Cons p ps)
  obtain r pr1 w1 where step: "Read rd pr p w = (r, pr1, w1)"
    by (metis prod_cases3)
  obtain rs1 pr2 w2 where rest: "Reads rd pr1 ps w1 = (rs1, pr2, w2)"
    by (metis prod_cases3)
  from Cons.prems(3) step rest have eqs: "rs = r # rs1" "pr' = pr2" "w' = w2"
    by simp_all
  have n0: "0 \<le> res_n r" and ns0: "\<forall>r\<in>set rs1. 0 \<le> res_n r"
    using Cons.prems(4) eqs by simp_all
  have rest0: "0 \<le> sum_list (map res_n rs1)"
    using ns0 by (intro sum_list_nonneg) auto
  have bound: "sint (read pr) + res_n r + sum_list (map res_n rs1) < 2 ^ 63"
    using Cons.prems(5) eqs by (simp add: add.assoc)
  have low: "- (2 ^ 63) \<le> sint (read pr)"
    using sint_ge [of "read pr"] by simp
  have rd1: "sint (read pr1) = sint (read pr) + res_n r"
    using Read_fields(1) [OF step] sint_add_of_int [of "read pr" "res_n r"]
      n0 rest0 bound low by simp
  have sz1: "Size pr1 = Size pr" and cb1: "OnProgress pr1 = Some record_progress"
    using Read_fields [OF step] Cons.prems(1) by simp_all
  have w1: "w1 = w @ [percent (read pr1) (Size pr)]"
    using Read_world [OF step] Cons.prems(1,2) by (simp add: record_progress_def)
  have "\<exists>es. w2 = w1 @ es \<and> length es = length ps \<and> sorted es \<and>
           (\<forall>e\<in>set es. percent (read pr1) (Size pr1) \<le> e \<and> e \<le> percent (read pr2) (Size pr1)) \<and>
           sint (read pr2) = sint (read pr1) + sum_list (map res_n rs1)"
    using Cons.IH [OF cb1 _ rest ns0] sz1 Cons.prems(2) rd1 bound
    by simp
  then obtain es where es: "w2 = w1 @ es" "length es = length ps" "sorted es"
      "\<forall>e\<in>set es. percent (read pr1) (Size pr1) \<le> e \<and> e \<le> percent (read pr2) (Size pr1)"
      "sint (read pr2) = sint (read pr1) + sum_list (map res_n rs1)"
    by blast
  have le1: "percent (read pr) (Size pr) \<le> percent (read pr1) (Size pr)"
    using percent_mono [OF Cons.prems(2)] rd1 n0 by simp
  have le2: "percent (read pr1) (Size pr) \<le> percent (read pr2) (Size pr)"
    using percent_mono [OF Cons.prems(2)] es(5) rest0 by simp
  let ?es = "percent (read pr1) (Size pr) # es"
  have "w' = w @ ?es" using es(1) w1 eqs by simp
  moreover have "length ?es = length (p # ps)" using es(2) by simp
  moreover have "sorted ?es" using es(3,4) sz1 by simp
  moreover have "\<forall>e\<in>set ?es. percent (read pr) (Size pr) \<le> e \<and> e \<le> percent (read pr') (Size pr)"
    using es(4) sz1 le1 le2 eqs by auto
  moreover have "sint (read pr') = sint (read pr) + sum_list (map res_n rs)"
    using es(5) rd1 eqs by simp
  ultimately show ?case by blast
qed

lemma sized_sourceD:
  assumes "sized_source rd remaining" "rd s p = (r, s')"
  shows "0 \<le> res_n r" "int (remaining s) = res_n r + int (remaining s')"
    "res_err r = Some EOF \<Longrightarrow> remaining s' = 0"
  using assms unfolding sized_source_def by blast+

lemma sized_bytes_Read: "sized_source bytes_Read length"
  by (auto simp: sized_source_def bytes_Read_def res_n_def res_err_def Let_def split: if_splits)

lemma sized_dataErr_Read: "sized_source dataErr_Read length"
  by (auto simp: sized_source_def dataErr_Read_def res_n_def res_err_def Let_def split: if_splits)


lemma Reads_sized_reaches_EOF:
  assumes "sized_source rd remaining"
    and progress: "\<And>s p r s'. rd s p = (r, s') \<Longrightarrow> p \<noteq> [] \<Longrightarrow>
        res_err r = Some EOF \<or> 0 < res_n r"
  shows "\<forall>p\<in>set ps. p \<noteq> [] \<Longrightarrow> remaining (Reader pr) < length ps \<Longrightarrow>
     Reads rd pr ps w = (rs, pr', w') \<Longrightarrow> Some EOF \<in> res_err ` set rs"
proof (induction ps arbitrary: pr w rs pr' w')
  case Nil
  then show ?case by simp
next
  case (Cons p ps)
  obtain r pr1 w1 where step: "Read rd pr p w = (r, pr1, w1)"
    by (metis prod_cases3)
  obtain rs1 pr2 w2 where rest: "Reads rd pr1 ps w1 = (rs1, pr2, w2)"
    by (metis prod_cases3)
  from Cons.prems(3) step rest have eqs: "rs = r # rs1" "pr' = pr2" "w' = w2"
    by simp_all
  have src: "rd (Reader pr) p = (r, Reader pr1)"
    using Read_fields(4) [OF step] by simp
  note f = sized_sourceD [OF assms(1) src]
  have "p \<noteq> []" using Cons.prems(1) by simp
  from progress [OF src this] show ?case
  proof
    assume "res_err r = Some EOF"
    with eqs show ?thesis by simp
  next
    assume "0 < res_n r"
    with f(2) Cons.prems(2) have "remaining (Reader pr1) < length ps"
      by simp
    from Cons.IH [OF _ this rest] Cons.prems(1) eqs show ?thesis
      by simp
  qed
qed

lemma Reads_bytes_reaches_EOF:
  "\<forall>p\<in>set ps. p \<noteq> [] \<Longrightarrow> length (Reader pr) < length ps \<Longrightarrow>
     Reads bytes_Read pr ps w = (rs, pr', w') \<Longrightarrow> Some EOF \<in> res_err ` set rs"
proof (rule Reads_sized_reaches_EOF [OF sized_bytes_Read])
  fix s p :: "byte list" and r s'
  assume "bytes_Read s p = (r, s')" "p \<noteq> []"
  then show "res_err r = Some EOF \<or> 0 < res_n r"
    by (auto simp: bytes_Read_def res_n_def res_err_def Let_def split: if_splits)
qed

subsection \<open>A single call\<close>

text \<open>
  Claim C7. A call of \<^verbatim>\<open>ProgressReader.Read\<close> calls the wrapped source's \<^verbatim>\<open>Read\<close> once,
  with the caller's buffer: the buffer contents, \<^verbatim>\<open>n\<close> and \<^verbatim>\<open>err\<close> returned to the caller
  are those the source returned (end of stream and failures included) and the source is
  left in the state after that one call, so nothing is retried. The count \<^verbatim>\<open>read\<close> grows
  by \<^verbatim>\<open>n\<close>, \<^verbatim>\<open>Size\<close> and the callback are unchanged, and the callback is invoked, once,
  exactly when it is not \<^verbatim>\<open>nil\<close> and \<^verbatim>\<open>Size > 0\<close>, with the \<^verbatim>\<open>float64\<close> value of
  \<^verbatim>\<open>float64(read) / float64(Size) * 100\<close>: both counters converted, the quotient rounded,
  the product with 100 rounded.
\<close>

theorem Read_contract:
  "Read rd pr p w = (r, pr', w') \<Longrightarrow>
     (r, Reader pr') = rd (Reader pr) p \<and>
     read pr' = read pr + word_of_int (res_n r) \<and>
     Size pr' = Size pr \<and> OnProgress pr' = OnProgress pr \<and>
     w' = (case OnProgress pr of
             None \<Rightarrow> w
           | Some f \<Rightarrow>
               if 0 <s Size pr
               then f (float64_mul (float64_div (float64 (read pr')) (float64 (Size pr))) 100) w
               else w)"
  using Read_fields [of rd pr p w r pr' w']
    Read_world [of rd pr p w r pr' w', unfolded percent_def]
  by simp

theorem Read_contract_witness:
  "Read bytes_Read \<lparr>Reader = [1, 2, 3], Size = 10, read = 2, OnProgress = Some record_progress\<rparr>
       [0, 0, 0, 0] []
     = (([1, 2, 3, 0], 3, None),
        \<lparr>Reader = [], Size = 10, read = 5, OnProgress = Some record_progress\<rparr>, [50]) \<and>
   (([1, 2, 3, 0], 3, None), []) = bytes_Read [1, 2, 3] [0, 0, 0, 0] \<and>
   (5 :: int64) = 2 + word_of_int 3 \<and>
   [50] = record_progress (float64_mul (float64_div (float64 5) (float64 10)) 100) []"
proof -
  have run: "Read bytes_Read
       \<lparr>Reader = [1, 2, 3], Size = 10, read = 2, OnProgress = Some record_progress\<rparr>
       [0, 0, 0, 0] []
     = (([1, 2, 3, 0], 3, None),
        \<lparr>Reader = [], Size = 10, read = 5, OnProgress = Some record_progress\<rparr>, [50])"
    by (simp add: Read_def bytes_Read_def record_progress_def float64_eval Let_def
        word_sless_alt)
  from Read_contract [OF run] run show ?thesis
    by (simp add: res_n_def word_sless_alt)
qed

text \<open>
  Claim C10. When the wrapped source returns \<^verbatim>\<open>n > 0\<close> bytes together with an error, the
  \<^verbatim>\<open>n\<close> bytes are still added to \<^verbatim>\<open>read\<close>, the callback (if set, with \<^verbatim>\<open>Size > 0\<close>) is
  still invoked with the percentage computed from the count that includes them, and the
  caller gets \<^verbatim>\<open>n\<close> and the error.
\<close>

theorem Read_counts_failed_read:
  "rd (Reader pr) p = ((p', n, Some e), s') \<Longrightarrow> 0 < n \<Longrightarrow>
   Read rd pr p w = (r, pr', w') \<Longrightarrow>
     r = (p', n, Some e) \<and>
     read pr' = read pr + word_of_int n \<and>
     (\<forall>f. OnProgress pr = Some f \<and> 0 <s Size pr \<longrightarrow>
        w' = f (float64_mul
                  (float64_div (float64 (read pr + word_of_int n)) (float64 (Size pr))) 100) w)"
  using Read_fields [of rd pr p w r pr' w']
    Read_world [of rd pr p w r pr' w', unfolded percent_def]
  by (auto simp: res_n_def)

theorem Read_counts_failed_read_witness:
  "dataErr_Read [7, 8] [0, 0, 0] = (([7, 8, 0], 2, Some EOF), []) \<and> (0::int) < 2 \<and>
   Read dataErr_Read
       \<lparr>Reader = [7, 8], Size = 4, read = 1, OnProgress = Some record_progress\<rparr> [0, 0, 0] []
     = (([7, 8, 0], 2, Some EOF),
        \<lparr>Reader = [], Size = 4, read = 3, OnProgress = Some record_progress\<rparr>, [75]) \<and>
   [75] = record_progress
            (float64_mul (float64_div (float64 (1 + word_of_int 2)) (float64 4)) 100) []"
proof -
  have src: "dataErr_Read
      (Reader \<lparr>Reader = [7, 8], Size = 4, read = 1, OnProgress = Some record_progress\<rparr>)
      [0, 0, 0] = (([7, 8, 0], 2, Some EOF), [])"
    by (simp add: dataErr_Read_def Let_def)
  have pos: "(0::int) < 2" by simp
  have run: "Read dataErr_Read
       \<lparr>Reader = [7, 8], Size = 4, read = 1, OnProgress = Some record_progress\<rparr> [0, 0, 0] []
     = (([7, 8, 0], 2, Some EOF),
        \<lparr>Reader = [], Size = 4, read = 3, OnProgress = Some record_progress\<rparr>, [75])"
    by (simp add: Read_def dataErr_Read_def record_progress_def float64_eval Let_def
        word_sless_alt)
  from Read_counts_failed_read [OF src pos run] src run show ?thesis
    by (simp add: word_sless_alt)
qed

subsection \<open>Sequences of calls\<close>






text \<open>
  Claim C2, as amended. For a \<^verbatim>\<open>ProgressReader\<close> with \<^verbatim>\<open>Size > 0\<close> and the recording sink,
  and a wrapped source that keeps the \<^verbatim>\<open>io.Reader\<close> contract \<^verbatim>\<open>n \<ge> 0\<close> and does not take
  the count beyond the range of \<^verbatim>\<open>int64\<close>: every read emits one percentage and the
  percentages never decrease. If the count stays at most \<^verbatim>\<open>Size\<close>, that is, if the source
  yields no more bytes than \<^verbatim>\<open>Size\<close> leaves room for, no percentage exceeds 100 and
  \<^verbatim>\<open>read\<close> is at most \<^verbatim>\<open>Size\<close>.
\<close>

theorem progress_monotone_bounded:
  assumes "0 <s Size pr" "OnProgress pr = Some record_progress"
    and "Reads rd pr ps [] = (rs, pr', es)"
    and "\<forall>r\<in>set rs. 0 \<le> res_n r"
    and "sint (read pr) + sum_list (map res_n rs) < 2 ^ 63"
  shows "length es = length ps \<and> sorted es \<and>
         (sint (read pr) + sum_list (map res_n rs) \<le> sint (Size pr) \<longrightarrow> within_total pr' es)"
proof -
  from Reads_recorded [OF assms(2) assms(1) assms(3) assms(4) assms(5)]
  obtain es' where es': "es = [] @ es'" "length es' = length ps" "sorted es'"
      "\<forall>e\<in>set es'. percent (read pr) (Size pr) \<le> e \<and> e \<le> percent (read pr') (Size pr)"
      "sint (read pr') = sint (read pr) + sum_list (map res_n rs)"
    by auto
  have sz: "Size pr' = Size pr"
    using Reads_fields [OF assms(3)] by simp
  have "within_total pr' es"
    if le: "sint (read pr) + sum_list (map res_n rs) \<le> sint (Size pr)"
  proof -
    have rd: "sint (read pr') \<le> sint (Size pr)"
      using es'(5) le by simp
    have "percent (read pr') (Size pr) \<le> percent (Size pr) (Size pr)"
      by (rule percent_mono [OF assms(1) rd])
    also have "percent (Size pr) (Size pr) = 100"
      by (rule percent_full [OF assms(1)])
    finally have "\<forall>e\<in>set es'. e \<le> 100"
      using es'(4) by fastforce
    then show ?thesis
      using rd sz es'(1) by (simp add: within_total_def list_all_iff)
  qed
  then show ?thesis using es'(1,2,3) by simp
qed

theorem progress_monotone_bounded_witness:
  "Reads bytes_Read \<lparr>Reader = [1, 2, 3], Size = 4, read = 0, OnProgress = Some record_progress\<rparr>
       [[0, 0], [0, 0], [0]] []
     = ([([1, 2], 2, None), ([3, 0], 1, None), ([0], 0, Some EOF)],
        \<lparr>Reader = [], Size = 4, read = 3, OnProgress = Some record_progress\<rparr>,
        [50, 75, 75]) \<and>
   sorted [50, 75, 75 :: real] \<and>
   within_total \<lparr>Reader = [] :: byte list, Size = 4, read = 3,
      OnProgress = Some record_progress\<rparr> [50, 75, 75]"
proof -
  have run: "Reads bytes_Read
       \<lparr>Reader = [1, 2, 3], Size = 4, read = 0, OnProgress = Some record_progress\<rparr>
       [[0, 0], [0, 0], [0]] []
     = ([([1, 2], 2, None), ([3, 0], 1, None), ([0], 0, Some EOF)],
        \<lparr>Reader = [], Size = 4, read = 3, OnProgress = Some record_progress\<rparr>,
        [50, 75, 75])"
    by (simp add: Read_def bytes_Read_def record_progress_def float64_eval Let_def
        word_sless_alt)
  have "length [50, 75, 75 :: real] = length [[0, 0], [0, 0], [0 :: byte]] \<and>
      sorted [50, 75, 75 :: real] \<and>
      (sint (read \<lparr>Reader = [1, 2, 3 :: byte], Size = 4, read = 0,
               OnProgress = Some record_progress\<rparr>)
         + sum_list (map res_n [([1, 2], 2, None), ([3, 0], 1, None), ([0], 0, Some EOF)])
         \<le> sint (Size \<lparr>Reader = [1, 2, 3 :: byte], Size = 4, read = 0,
               OnProgress = Some record_progress\<rparr>) \<longrightarrow>
       within_total \<lparr>Reader = [] :: byte list, Size = 4, read = 3,
         OnProgress = Some record_progress\<rparr> [50, 75, 75])"
    by (rule progress_monotone_bounded [OF _ _ run])
      (simp_all add: res_n_def word_sless_alt)
  with run show ?thesis by (simp add: res_n_def)
qed

text \<open>
  The bound of claim C2 does not hold for every wrapped source: \<^verbatim>\<open>Read\<close> does not clamp.
  A reader with \<^verbatim>\<open>Size = 1\<close> whose source yields two bytes ends with \<^verbatim>\<open>read = 2\<close> and emits
  200.
\<close>

theorem progress_exceeds_total_counterexample:
  "Reads bytes_Read \<lparr>Reader = [1, 2], Size = 1, read = 0, OnProgress = Some record_progress\<rparr>
       [[0, 0]] []
     = ([([1, 2], 2, None)],
        \<lparr>Reader = [], Size = 1, read = 2, OnProgress = Some record_progress\<rparr>, [200]) \<and>
   \<not> within_total \<lparr>Reader = [] :: byte list, Size = 1, read = 2,
      OnProgress = Some record_progress\<rparr> [200]"
  by (simp add: Read_def bytes_Read_def record_progress_def float64_eval Let_def
      word_sless_alt within_total_def)

section \<open>Properties of the pipeline\<close>

subsection \<open>Reading the response\<close>

lemma bar_Add_twice: "bar_Add (bar_Add bar n) m = bar_Add bar (n + m)"
  by (simp add: bar_Add_def add.assoc)

lemma ReadAll_loop_metered1:
  "ReadAll_loop rd s acc = Some y \<Longrightarrow>
     ReadAll_loop (progressbar_Reader_Read rd) (s, bar) acc =
       Some (fst y, (snd y, bar_Add bar (int (length (fst (fst y))) - int (length acc))))"
proof (induction arbitrary: bar rule: ReadAll_loop.raw_induct [rotated 1, consumes 1])
  case (1 loop rd s acc y)
  obtain chunk err s' where step: "rd s = ((chunk, err), s')"
    by (cases "rd s") auto
  show ?case
  proof (cases err)
    case None
    with 1(2) step have rec: "loop rd s' (acc @ chunk) = Some y"
      by simp
    from 1(1) [OF rec, of "bar_Add bar (int (length chunk))"] step None show ?thesis
      by (subst ReadAll_loop.simps)
        (simp add: progressbar_Reader_Read_def bar_Add_twice algebra_simps)
  next
    case (Some e)
    with 1(2) step show ?thesis
      by (subst ReadAll_loop.simps) (auto simp: progressbar_Reader_Read_def)
  qed
qed

lemma ReadAll_loop_metered2:
  "ReadAll_loop rd' sb acc = Some y \<Longrightarrow> rd' = progressbar_Reader_Read rd \<Longrightarrow>
     ReadAll_loop rd (fst sb) acc = Some (fst y, fst (snd y))"
proof (induction arbitrary: rd rule: ReadAll_loop.raw_induct [rotated 1, consumes 1])
  case (1 loop rd' sb acc y)
  obtain s bar where sb: "sb = (s, bar)"
    by (cases sb)
  obtain chunk err s' where step: "rd s = ((chunk, err), s')"
    by (cases "rd s") auto
  show ?case
  proof (cases err)
    case None
    with 1(2) 1(3) sb step
    have rec: "loop rd' (s', bar_Add bar (int (length chunk))) (acc @ chunk) = Some y"
      by (simp add: progressbar_Reader_Read_def)
    from 1(1) [OF rec 1(3)] sb step None show ?thesis
      by (subst ReadAll_loop.simps) simp
  next
    case (Some e)
    with 1(2) 1(3) sb step show ?thesis
      by (subst ReadAll_loop.simps) (auto simp: progressbar_Reader_Read_def)
  qed
qed

lemma ReadAll_loop_metered:
  "ReadAll_loop (progressbar_Reader_Read rd) (s, bar) acc =
     map_option (\<lambda>y. (fst y, (snd y, bar_Add bar (int (length (fst (fst y))) - int (length acc)))))
       (ReadAll_loop rd s acc)"
proof (cases "ReadAll_loop rd s acc")
  case None
  show ?thesis
  proof (cases "ReadAll_loop (progressbar_Reader_Read rd) (s, bar) acc")
    case inner: None
    with None show ?thesis by simp
  next
    case (Some y)
    from ReadAll_loop_metered2 [OF Some refl] None show ?thesis by simp
  qed
next
  case (Some y)
  from ReadAll_loop_metered1 [OF Some] Some show ?thesis by simp
qed


lemma read_response_eq:
  "read_response rd resp =
     map_option
       (\<lambda>y. (fst y,
             if 0 <s ContentLength resp
             then Some \<lparr>totalSize = ContentLength resp,
                        bytesSoFar = word_of_nat (length (fst (fst y)))\<rparr>
             else None,
             snd y))
       (io_ReadAll rd (Body resp))"
  by (cases "ReadAll_loop rd (Body resp) []")
    (auto simp: read_response_def io_ReadAll_def ReadAll_loop_metered Let_def
      NewOptions64_def bar_Add_def)

text \<open>
  Claim C5. The response body is read through the progress reader, with a bar configured
  with the declared length, if and only if that length is greater than 0; otherwise it is
  read directly and there is no bar. In both cases the bytes, the error and the state of the
  stream are those of reading the body directly, and so is not returning. The bar ends with
  the number of bytes read: with the declared length when a body of that length was read.
\<close>

theorem read_response_metering:
  "map_option (\<lambda>(r, bar2, b). (r, b)) (read_response rd resp) = io_ReadAll rd (Body resp) \<and>
   (\<forall>data err bar2 b. read_response rd resp = Some ((data, err), bar2, b) \<longrightarrow>
      (0 <s ContentLength resp \<longrightarrow>
         bar2 = Some \<lparr>totalSize = ContentLength resp, bytesSoFar = word_of_nat (length data)\<rparr>) \<and>
      (\<not> 0 <s ContentLength resp \<longrightarrow> bar2 = None) \<and>
      (0 <s ContentLength resp \<and> int (length data) = sint (ContentLength resp) \<longrightarrow>
         bar2 = Some \<lparr>totalSize = ContentLength resp, bytesSoFar = ContentLength resp\<rparr>))"
proof -
  have "word_of_nat (length data) = ContentLength resp"
    if "int (length data) = sint (ContentLength resp)" for data :: "byte list"
  proof -
    have "(word_of_nat (length data) :: int64) = word_of_int (int (length data))"
      by simp
    also have "\<dots> = ContentLength resp"
      by (simp only: that) simp
    finally show ?thesis .
  qed
  then show ?thesis
    by (cases "io_ReadAll rd (Body resp)") (auto simp: read_response_eq)
qed

theorem read_response_metering_witness:
  "read_response script_Read
       \<lparr>StatusCode = 200, ContentLength = 42,
        Body = [(replicate 20 1, None), (replicate 22 2, Some EOF)]\<rparr>
     = Some ((replicate 20 1 @ replicate 22 2, None),
             Some \<lparr>totalSize = 42, bytesSoFar = 42\<rparr>, []) \<and>
   io_ReadAll script_Read [(replicate 20 1, None), (replicate 22 2, Some EOF)]
     = Some ((replicate 20 1 @ replicate 22 2, None), [])"
proof -
  let ?resp = "\<lparr>StatusCode = 200, ContentLength = 42,
        Body = [(replicate 20 1, None), (replicate 22 2, Some EOF)]\<rparr>"
  have direct: "io_ReadAll script_Read (Body ?resp)
      = Some ((replicate 20 1 @ replicate 22 2, None), [])"
    by (simp add: io_ReadAll_def ReadAll_loop.simps script_Read_def)
  from read_response_metering [of script_Read ?resp] direct show ?thesis
    by (auto simp: word_sless_alt)
qed

subsection \<open>The steps of \<^verbatim>\<open>main\<close>\<close>

text \<open>
  Copying the file into the form part through the tee is reading the file to its end: the
  request body is the part's header, the bytes of the file and the closing boundary, the
  names given to the multipart writer are \<^verbatim>\<open>"file"\<close> and the base name of the path, and the
  step fails exactly when \<^verbatim>\<open>CreateFormFile\<close> or a read of the file fails.
\<close>

lemma ReadAll_loop_shift1:
  "ReadAll_loop rd s acc = Some y \<Longrightarrow>
     ReadAll_loop rd s (pre @ acc) = Some ((pre @ fst (fst y), snd (fst y)), snd y)"
proof (induction rule: ReadAll_loop.raw_induct [rotated 1, consumes 1])
  case (1 loop rd s acc y)
  obtain chunk err s' where step: "rd s = ((chunk, err), s')"
    by (cases "rd s") auto
  show ?case
  proof (cases err)
    case None
    with 1(2) step have "loop rd s' (acc @ chunk) = Some y"
      by simp
    from 1(1) [OF this] step None show ?thesis
      by (subst ReadAll_loop.simps) simp
  next
    case (Some e)
    with 1(2) step show ?thesis
      by (subst ReadAll_loop.simps) auto
  qed
qed

lemma ReadAll_loop_shift2:
  "ReadAll_loop rd s acc' = Some y \<Longrightarrow> acc' = pre @ acc \<Longrightarrow>
     ReadAll_loop rd s acc = Some ((drop (length pre) (fst (fst y)), snd (fst y)), snd y)"
proof (induction arbitrary: acc rule: ReadAll_loop.raw_induct [rotated 1, consumes 1])
  case (1 loop rd s acc' y)
  obtain chunk err s' where step: "rd s = ((chunk, err), s')"
    by (cases "rd s") auto
  show ?case
  proof (cases err)
    case None
    with 1(2) step have "loop rd s' (acc' @ chunk) = Some y"
      by simp
    from 1(1) [OF this, of "acc @ chunk"] 1(3) step None show ?thesis
      by (subst ReadAll_loop.simps) simp
  next
    case (Some e)
    with 1(2) 1(3) step show ?thesis
      by (subst ReadAll_loop.simps) auto
  qed
qed

lemma ReadAll_loop_shift:
  "ReadAll_loop rd s (pre @ acc) =
     map_option (\<lambda>y. ((pre @ fst (fst y), snd (fst y)), snd y)) (ReadAll_loop rd s acc)"
proof (cases "ReadAll_loop rd s acc")
  case None
  show ?thesis
  proof (cases "ReadAll_loop rd s (pre @ acc)")
    case inner: None
    with None show ?thesis by simp
  next
    case (Some y)
    from ReadAll_loop_shift2 [OF Some refl] None show ?thesis by simp
  qed
next
  case (Some y)
  from ReadAll_loop_shift1 [OF Some] Some show ?thesis by simp
qed

lemma bar_Add_zero: "bar_Add bar 0 = bar"
  by (simp add: bar_Add_def)

lemma tee_step:
  "rd s = ((chunk, err), s') \<Longrightarrow>
     TeeReader_Read rd bar_Write (s, bar) =
       ((chunk, err), (s', bar_Add bar (int (length chunk))))"
  by (simp add: TeeReader_Read_def bar_Write_def bar_Add_zero)

lemma copy_step:
  assumes "rd s = ((chunk, err), s')"
  shows "copyBuffer part_Write (TeeReader_Read rd bar_Write) d (s, bar) w =
     (case err of
        Some e \<Rightarrow>
          Some ((w + word_of_nat (length chunk), if e = EOF then None else Some e),
                d @ chunk, (s', bar_Add bar (int (length chunk))))
      | None \<Rightarrow>
          copyBuffer part_Write (TeeReader_Read rd bar_Write) (d @ chunk)
            (s', bar_Add bar (int (length chunk))) (w + word_of_nat (length chunk)))"
  by (subst copyBuffer.simps)
    (auto simp: tee_step [where rd = rd and s = s, OF assms] part_Write_def bar_Add_zero split: option.splits)

lemma copy_tee1:
  "ReadAll_loop rd s d = Some y \<Longrightarrow>
     copyBuffer part_Write (TeeReader_Read rd bar_Write) d (s, bar) w =
       Some ((w + word_of_int (int (length (fst (fst y))) - int (length d)), snd (fst y)),
             fst (fst y),
             (snd y, bar_Add bar (int (length (fst (fst y))) - int (length d))))"
proof (induction arbitrary: bar w rule: ReadAll_loop.raw_induct [rotated 1, consumes 1])
  case (1 loop rd s d y)
  obtain chunk err s' where step: "rd s = ((chunk, err), s')"
    by (cases "rd s") auto
  show ?case
  proof (cases err)
    case None
    with 1(2) step have rec: "loop rd s' (d @ chunk) = Some y"
      by simp
    from 1(1) [OF rec, of "bar_Add bar (int (length chunk))" "w + word_of_nat (length chunk)"]
      None
    show ?thesis
      by (simp add: copy_step [where rd = rd and s = s, OF step] bar_Add_twice algebra_simps)
  next
    case (Some e)
    with 1(2) step show ?thesis
      by (auto simp: copy_step [where rd = rd and s = s, OF step])
  qed
qed

lemma copy_tee2:
  "copyBuffer wr rd' d sb w = Some z \<Longrightarrow>
   wr = part_Write \<Longrightarrow> rd' = TeeReader_Read rd bar_Write \<Longrightarrow>
     ReadAll_loop rd (fst sb) d = Some ((fst (snd z), snd (fst z)), fst (snd (snd z)))"
proof (induction arbitrary: rd rule: copyBuffer.raw_induct [rotated 1, consumes 1])
  case (1 loop wr rd' d sb w z)
  obtain s bar where sb: "sb = (s, bar)"
    by (cases sb)
  obtain chunk err s' where step: "rd s = ((chunk, err), s')"
    by (cases "rd s") auto
  note tee = tee_step [where rd = rd and s = s and bar = bar, OF step]
  show ?case
  proof (cases err)
    case None
    have rec: "loop wr rd' (d @ chunk) (s', bar_Add bar (int (length chunk)))
        (w + word_of_nat (length chunk)) = Some z"
      using 1(2) 1(3) 1(4) sb tee None
      by (cases "chunk = []") (simp_all add: part_Write_def bar_Add_zero)
    from 1(1) [OF rec 1(3) 1(4)] sb step None show ?thesis
      by (subst ReadAll_loop.simps) simp
  next
    case (Some e)
    have "z = ((w + word_of_nat (length chunk), if e = EOF then None else Some e),
               d @ chunk, (s', bar_Add bar (int (length chunk))))"
      using 1(2) 1(3) 1(4) sb tee Some
      by (cases "chunk = []") (auto simp: part_Write_def bar_Add_zero)
    with sb step Some show ?thesis
      by (subst ReadAll_loop.simps) simp
  qed
qed

lemma copy_tee:
  "copyBuffer part_Write (TeeReader_Read rd bar_Write) d (s, bar) w =
     map_option
       (\<lambda>y. ((w + word_of_int (int (length (fst (fst y))) - int (length d)), snd (fst y)),
             fst (fst y),
             (snd y, bar_Add bar (int (length (fst (fst y))) - int (length d)))))
       (ReadAll_loop rd s d)"
proof (cases "ReadAll_loop rd s d")
  case None
  show ?thesis
  proof (cases "copyBuffer part_Write (TeeReader_Read rd bar_Write) d (s, bar) w")
    case inner: None
    with None show ?thesis by simp
  next
    case (Some z)
    from copy_tee2 [OF Some refl refl] None show ?thesis by simp
  qed
next
  case (Some y)
  from copy_tee1 [OF Some] Some show ?thesis by simp
qed

lemma main_encode_eq:
  "main_encode env fh fileSize =
     (let tr = [Print (MsgFile (filepath_Base env (filePath env))), Print (MsgSize fileSize),
                Print (MsgTarget (serverURL env))]
      in case CreateFormFile env ''file'' (filepath_Base env (filePath env)) of
           Inl e \<Rightarrow> Some (Inl (tr @ [Print (MsgCreateFormFailed e), Exit 1]))
         | Inr header \<Rightarrow>
             (case io_ReadAll (file_Read env) fh of
                None \<Rightarrow> None
              | Some ((data, Some e), s') \<Rightarrow> Some (Inl (tr @ [Print (MsgReadFileFailed e), Exit 1]))
              | Some ((data, None), s') \<Rightarrow>
                  Some (Inr (tr, header @ data @ writer_Close env))))"
proof (cases "CreateFormFile env ''file'' (filepath_Base env (filePath env))")
  case (Inl e)
  then show ?thesis by (simp add: main_encode_def Let_def)
next
  case (Inr header)
  have "ReadAll_loop (file_Read env) fh (header @ []) =
      map_option (\<lambda>y. ((header @ fst (fst y), snd (fst y)), snd y))
        (ReadAll_loop (file_Read env) fh [])"
    by (rule ReadAll_loop_shift)
  then show ?thesis
    using Inr
    by (cases "ReadAll_loop (file_Read env) fh []")
      (auto simp: main_encode_def Let_def io_Copy_def io_ReadAll_def copy_tee
        split: option.splits)
qed

text \<open>
  \<^verbatim>\<open>main\<close> returns when the file can be opened and both streams end.
\<close>

lemma ReadAll_loop_returns:
  "ends_within rd s k \<Longrightarrow> \<exists>y. ReadAll_loop rd s acc = Some y"
proof (induction k arbitrary: s acc)
  case 0
  then show ?case by simp
next
  case (Suc k)
  obtain chunk err s' where step: "rd s = ((chunk, err), s')"
    by (cases "rd s") auto
  show ?case
  proof (cases err)
    case None
    with Suc.prems step have "ends_within rd s' k" by simp
    from Suc.IH [OF this, of "acc @ chunk"] step None show ?thesis
      by (subst ReadAll_loop.simps) simp
  next
    case (Some e)
    with step show ?thesis
      by (subst ReadAll_loop.simps) simp
  qed
qed

lemma main_returns:
  fixes env :: "('f, 'b) Env"
  assumes "ends_within (file_Read env) fh k" "os_Open env (filePath env) = Inr fh"
    and "\<And>resp :: 'b Response. \<exists>k. ends_within (body_Read env) (Body resp) k"
  shows "\<exists>tr. main env = Some tr"
proof -
  obtain y where fr: "io_ReadAll (file_Read env) fh = Some y"
    using ReadAll_loop_returns [OF assms(1), of "[]"] by (auto simp: io_ReadAll_def)
  have enc: "\<exists>a. main_encode env fh fileSize = Some a" for fileSize
    using fr by (auto simp: main_encode_eq Let_def split: sum.splits prod.splits option.splits)
  have rec: "\<exists>c. main_receive env resp = Some c" for resp :: "'b Response"
  proof -
    obtain k where "ends_within (body_Read env) (Body resp) k"
      using assms(3) by blast
    from ReadAll_loop_returns [OF this, of "[]"] obtain z
      where "io_ReadAll (body_Read env) (Body resp) = Some z"
      by (auto simp: io_ReadAll_def)
    then show ?thesis
      by (auto simp: main_receive_def read_response_eq split: option.splits prod.splits)
  qed
  show ?thesis
  proof (cases "filePath env = [] \<or> serverURL env = []")
    case True
    then show ?thesis by (simp add: main_def)
  next
    case False
    show ?thesis
    proof (cases "file_Stat env fh")
      case (Inl e)
      with False assms(2) show ?thesis
        by (simp add: main_def main_open_def)
    next
      case (Inr fileSize)
      then have op: "main_open env = Inr ([FileOpen], fh, fileSize)"
        using assms(2) by (simp add: main_open_def)
      obtain a where a: "main_encode env fh fileSize = Some a"
        using enc by blast
      show ?thesis
      proof (cases a)
        case (Inl tr)
        with False op a show ?thesis by (simp add: main_def)
      next
        case (Inr tb)
        obtain tr2 body where tb: "tb = (tr2, body)"
          by (cases tb)
        show ?thesis
        proof (cases "main_send env body")
          case (Inl tr)
          with False op a Inr tb show ?thesis by (simp add: main_def)
        next
          case send: (Inr tresp)
          obtain tr3 resp where tresp: "tresp = (tr3, resp)"
            by (cases tresp)
          obtain c where c: "main_receive env resp = Some c"
            using rec by blast
          from False op a Inr tb send tresp c show ?thesis
            by (cases c) (auto simp: main_def)
        qed
      qed
    qed
  qed
qed

lemma main_open_Inr:
  "main_open env = Inr (tr, file, fileSize) \<Longrightarrow> tr = [FileOpen]"
  by (auto simp: main_open_def split: sum.splits)

lemma main_encode_Inr:
  "main_encode env file fileSize = Some (Inr (tr, body)) \<Longrightarrow>
     tr = [Print (MsgFile (filepath_Base env (filePath env))), Print (MsgSize fileSize),
           Print (MsgTarget (serverURL env))]"
  by (auto simp: main_encode_def Let_def split: sum.splits option.splits)

lemma main_send_Inr:
  "main_send env body = Inr (tr, resp) \<Longrightarrow>
     tr = [Print MsgConnecting, Do (serverURL env) (FormDataContentType env) body] \<and>
     client_Do env (serverURL env) (FormDataContentType env) body = Inr resp"
  by (auto simp: main_send_def Let_def split: sum.splits option.splits)

lemma main_receive_Inr:
  "main_receive env resp = Some (Inr (tr, responseBody)) \<Longrightarrow>
     \<exists>bar2 b. tr = [Print MsgReceiving, ReadBody bar2] \<and>
       read_response (body_Read env) resp = Some ((responseBody, None), bar2, b)"
  by (auto simp: main_receive_def split: sum.splits option.splits)

lemmas main_unfold =
  main_def main_open_def main_encode_def main_send_def main_receive_def main_report_def
  read_response_def io_Copy_def io_ReadAll_def copyBuffer.simps ReadAll_loop.simps
  TeeReader_Read_def part_Write_def bar_Write_def bar_Add_def NewOptions64_def
  progressbar_Reader_Read_def script_Read_def scripted_env_def StatusOK_def Let_def
  word_sless_alt






lemma file_closed_on_return: "\<not> file_held (tr @ [BodyClose, FileClose, Exit 0])"
  by (simp add: file_held_def)

text \<open>
  Claim C9. When the file has been opened and encoded and \<^verbatim>\<open>client.Do\<close> returns an error,
  the run is: the effects so far, the request, the failure message and the end of the
  process with status 1. The request is sent once and the response body is never read. The
  file is not closed: \<^verbatim>\<open>os.Exit(1)\<close> ends the process without running the deferred
  \<^verbatim>\<open>file.Close()\<close>, so the program still holds the handle when it prints the failure and
  when it ends. (A run that returns from \<^verbatim>\<open>main\<close> does close it: \<open>file_closed_on_return\<close>.)
\<close>

theorem send_failure_is_terminal:
  assumes "filePath env \<noteq> []" "serverURL env \<noteq> []"
    and "main_open env = Inr (tr1, fh, fileSize)"
    and "main_encode env fh fileSize = Some (Inr (tr2, body))"
    and "http_NewRequest env ''POST'' (serverURL env) = None"
    and "client_Do env (serverURL env) (FormDataContentType env) body = Inl e"
  shows "(let tr = tr1 @ tr2 @
                [Print MsgConnecting, Do (serverURL env) (FormDataContentType env) body,
                 Print (MsgSendFailed e), Exit 1]
          in main env = Some tr \<and> exit_status tr = Some 1 \<and>
             length (filter is_Do tr) = 1 \<and> \<not> list_ex is_ReadBody tr \<and>
             FileClose \<notin> set tr \<and> file_held tr)"
proof -
  note tr1 = main_open_Inr [OF assms(3)]
  note tr2 = main_encode_Inr [OF assms(4)]
  have "main_send env body =
      Inl [Print MsgConnecting, Do (serverURL env) (FormDataContentType env) body,
           Print (MsgSendFailed e), Exit 1]"
    using assms(5,6) by (simp add: main_send_def)
  with assms(1-4) have "main env = Some (tr1 @ tr2 @
      [Print MsgConnecting, Do (serverURL env) (FormDataContentType env) body,
       Print (MsgSendFailed e), Exit 1])"
    by (simp add: main_def)
  then show ?thesis
    by (simp add: tr1 tr2 file_held_def Let_def)
qed

theorem send_failure_is_terminal_witness:
  "main (scripted_env [([1, 2], None), ([3], None)] (Inl (Err ''connection refused'')))
     = Some [FileOpen, Print (MsgFile ''a.bin''), Print (MsgSize 3),
             Print (MsgTarget ''http://host/upload''), Print MsgConnecting,
             Do ''http://host/upload'' ''multipart/form-data; boundary=b'' [45, 45, 1, 2, 3, 45],
             Print (MsgSendFailed (Err ''connection refused'')), Exit 1] \<and>
   file_held [FileOpen, Print (MsgFile ''a.bin''), Print (MsgSize 3),
             Print (MsgTarget ''http://host/upload''), Print MsgConnecting,
             Do ''http://host/upload'' ''multipart/form-data; boundary=b'' [45, 45, 1, 2, 3, 45],
             Print (MsgSendFailed (Err ''connection refused'')), Exit 1]"
proof -
  let ?env = "scripted_env [([1, 2], None), ([3], None)] (Inl (Err ''connection refused''))"
  have f: "filePath ?env \<noteq> []" and u: "serverURL ?env \<noteq> []"
    by (simp_all add: scripted_env_def)
  have op: "main_open ?env = Inr ([FileOpen], [([1, 2], None), ([3], None)], 3)"
    by (simp add: main_unfold)
  have en: "main_encode ?env [([1, 2], None), ([3], None)] 3
      = Some (Inr ([Print (MsgFile ''a.bin''), Print (MsgSize 3),
                    Print (MsgTarget ''http://host/upload'')], [45, 45, 1, 2, 3, 45]))"
    by (simp add: main_unfold)
  have nr: "http_NewRequest ?env ''POST'' (serverURL ?env) = None"
    by (simp add: scripted_env_def)
  have dr: "client_Do ?env (serverURL ?env) (FormDataContentType ?env) [45, 45, 1, 2, 3, 45]
      = Inl (Err ''connection refused'')"
    by (simp add: scripted_env_def)
  from send_failure_is_terminal [OF f u op en nr dr] show ?thesis
    by (simp add: Let_def scripted_env_def)
qed

text \<open>
  Claim C1, as amended. When the exchange has completed and reading the response body to
  its end has delivered \<open>responseBody\<close>, the run ends with the report: the status code, the
  success line if the status code is 200 and the failure line for every other code, and the
  body as it was read; then the deferred calls and exit status 0.
\<close>

theorem report_of_main:
  assumes "filePath env \<noteq> []" "serverURL env \<noteq> []"
    and "main_open env = Inr (tr1, fh, fileSize)"
    and "main_encode env fh fileSize = Some (Inr (tr2, body))"
    and "main_send env body = Inr (tr3, resp)"
    and "io_ReadAll (body_Read env) (Body resp) = Some ((responseBody, None), b)"
  shows "main env = Some (tr1 @ tr2 @ tr3 @
           [Print MsgReceiving,
            ReadBody (if 0 <s ContentLength resp
                      then Some \<lparr>totalSize = ContentLength resp,
                                 bytesSoFar = word_of_nat (length responseBody)\<rparr>
                      else None),
            Print (MsgStatus (StatusCode resp)),
            Print (if StatusCode resp = 200 then MsgSuccess else MsgFailure),
            Print (MsgServerReturned responseBody),
            BodyClose, FileClose, Exit 0])"
proof -
  let ?bar2 = "if 0 <s ContentLength resp
      then Some \<lparr>totalSize = ContentLength resp,
                 bytesSoFar = word_of_nat (length responseBody)\<rparr>
      else None"
  from assms(6)
  have "read_response (body_Read env) resp = Some ((responseBody, None), ?bar2, b)"
    by (simp add: read_response_eq)
  then have "main_receive env resp =
      Some (Inr ([Print MsgReceiving, ReadBody ?bar2], responseBody))"
    by (simp add: main_receive_def)
  with assms(1-5) show ?thesis
    by (simp add: main_def main_report_def StatusOK_def)
qed

theorem report_of_main_witness:
  "main (scripted_env [([1, 2], None), ([3], None)]
           (Inr \<lparr>StatusCode = 200, ContentLength = - 1, Body = [([7], None), ([8], Some EOF)]\<rparr>))
     = Some ([FileOpen] @
             [Print (MsgFile ''a.bin''), Print (MsgSize 3), Print (MsgTarget ''http://host/upload'')] @
             [Print MsgConnecting,
              Do ''http://host/upload'' ''multipart/form-data; boundary=b'' [45, 45, 1, 2, 3, 45]] @
             [Print MsgReceiving, ReadBody None, Print (MsgStatus 200), Print MsgSuccess,
              Print (MsgServerReturned [7, 8]), BodyClose, FileClose, Exit 0])"
proof -
  let ?resp = "\<lparr>StatusCode = 200, ContentLength = - 1,
      Body = [([7], None), ([8 :: byte], Some EOF)]\<rparr>"
  let ?env = "scripted_env [([1, 2], None), ([3], None)] (Inr ?resp)"
  have f: "filePath ?env \<noteq> []" and u: "serverURL ?env \<noteq> []"
    by (simp_all add: scripted_env_def)
  have op: "main_open ?env = Inr ([FileOpen], [([1, 2], None), ([3], None)], 3)"
    by (simp add: main_unfold)
  have en: "main_encode ?env [([1, 2], None), ([3], None)] 3
      = Some (Inr ([Print (MsgFile ''a.bin''), Print (MsgSize 3),
                    Print (MsgTarget ''http://host/upload'')], [45, 45, 1, 2, 3, 45]))"
    by (simp add: main_unfold)
  have se: "main_send ?env [45, 45, 1, 2, 3, 45]
      = Inr ([Print MsgConnecting,
              Do ''http://host/upload'' ''multipart/form-data; boundary=b'' [45, 45, 1, 2, 3, 45]],
             ?resp)"
    by (simp add: main_unfold)
  have rd: "io_ReadAll (body_Read ?env) (Body ?resp) = Some (([7, 8], None), [])"
    by (simp add: main_unfold)
  from report_of_main [OF f u op en se rd] show ?thesis
    by (simp add: word_sless_alt)
qed

text \<open>
  Claim C1 as stated fails for the other codes of the successful range: a response with
  status 201 is reported as a failure.
\<close>

theorem report_201_counterexample:
  "main (scripted_env [([1, 2], None), ([3], None)]
           (Inr \<lparr>StatusCode = 201, ContentLength = - 1, Body = [([7], None), ([8], Some EOF)]\<rparr>))
     = Some [FileOpen, Print (MsgFile ''a.bin''), Print (MsgSize 3),
             Print (MsgTarget ''http://host/upload''), Print MsgConnecting,
             Do ''http://host/upload'' ''multipart/form-data; boundary=b'' [45, 45, 1, 2, 3, 45],
             Print MsgReceiving, ReadBody None,
             Print (MsgStatus 201), Print MsgFailure, Print (MsgServerReturned [7, 8]),
             BodyClose, FileClose, Exit 0] \<and>
   spec_successful_range 201"
  by (simp add: main_unfold spec_successful_range_def)

end
